theory Spec2Isabelle
  imports Complex_Main
begin

section \<open>Analytic power curves for sQTL / GWAS: the closed-form power function\<close>

text \<open>
  The notebook \<^verbatim>\<open>power_curve_demo.ipynb\<close> (and its copy \<^verbatim>\<open>simulation.ipynb\<close>)
  defines one function and calls it over two parameter grids:

  \<^verbatim>\<open>
  def analytic_power(n, maf, beta, p_thr, sigma=1.0):
      z_cut = stats.norm.isf(p_thr / 2.0)
      var_g = 2.0 * maf * (1.0 - maf)
      ncp   = beta * np.sqrt(n * var_g) / sigma
      return stats.norm.sf(z_cut - ncp) + stats.norm.cdf(-z_cut - ncp)
  \<close>

  The function is straight-line floating-point code over numpy and scipy scalars. The
  embedding keeps its shape and makes two things explicit.

  \<^item> Values: a numpy scalar is a finite number, an infinity or a nan. Finite values are
    modelled as real numbers with exact arithmetic (the rounding of binary64, overflow
    and the sign of zero are abstracted); the three exceptional values are constructors
    of their own, and every arithmetic operation follows IEEE 754 on them. numpy and
    scipy do not raise on an invalid scalar operation: they return nan or an infinity
    (with a warning), and so does the model.

  \<^item> The library: \<^verbatim>\<open>stats.norm.cdf\<close>, \<^verbatim>\<open>stats.norm.sf\<close> and
    \<^verbatim>\<open>stats.norm.isf\<close> belong to scipy, not to the repository. They are modelled by
    what they compute: the standard normal distribution function, defined here by its
    power series and shown below to have the Gaussian density as derivative and the
    limits 0 and 1; the survival function as scipy evaluates it, \<open>sf x = cdf (- x)\<close>;
    and the inverse survival function as scipy evaluates it, \<open>isf q = - ppf q\<close>, with
    \<open>ppf\<close> the inverse of \<open>cdf\<close> on the open unit interval.
\<close>

subsection \<open>Floating-point values and their arithmetic\<close>

datatype fl = Fin real | PInf | MInf | NaN

fun fneg :: "fl \<Rightarrow> fl" where
  "fneg (Fin a) = Fin (- a)"
| "fneg PInf = MInf"
| "fneg MInf = PInf"
| "fneg NaN = NaN"

fun fadd :: "fl \<Rightarrow> fl \<Rightarrow> fl" where
  "fadd NaN _ = NaN"
| "fadd _ NaN = NaN"
| "fadd (Fin a) (Fin b) = Fin (a + b)"
| "fadd PInf MInf = NaN"
| "fadd MInf PInf = NaN"
| "fadd PInf _ = PInf"
| "fadd _ PInf = PInf"
| "fadd MInf _ = MInf"
| "fadd _ MInf = MInf"

definition fsub :: "fl \<Rightarrow> fl \<Rightarrow> fl" where
  "fsub a b = fadd a (fneg b)"

definition fsign :: "fl \<Rightarrow> real" where
  "fsign a = (case a of Fin x \<Rightarrow> sgn x | PInf \<Rightarrow> 1 | MInf \<Rightarrow> - 1 | NaN \<Rightarrow> 0)"

definition finf :: "real \<Rightarrow> fl" where
  \<comment> \<open>The infinity of the given sign; an undetermined sign (0 times infinity, 0 / 0) is nan.\<close>
  "finf s = (if s < 0 then MInf else if 0 < s then PInf else NaN)"

fun fmul :: "fl \<Rightarrow> fl \<Rightarrow> fl" where
  "fmul NaN _ = NaN"
| "fmul _ NaN = NaN"
| "fmul (Fin a) (Fin b) = Fin (a * b)"
| "fmul a b = finf (fsign a * fsign b)"

fun fdiv :: "fl \<Rightarrow> fl \<Rightarrow> fl" where
  "fdiv NaN _ = NaN"
| "fdiv _ NaN = NaN"
| "fdiv (Fin a) (Fin b) = (if b = 0 then finf (sgn a) else Fin (a / b))"
| "fdiv (Fin a) _ = Fin 0"
| "fdiv a (Fin b) = (if b < 0 then fneg a else a)"
| "fdiv _ _ = NaN"

fun np_sqrt :: "fl \<Rightarrow> fl" where
  \<comment> \<open>\<^verbatim>\<open>np.sqrt\<close>: nan on a negative argument, no exception.\<close>
  "np_sqrt (Fin a) = (if a < 0 then NaN else Fin (sqrt a))"
| "np_sqrt PInf = PInf"
| "np_sqrt MInf = NaN"
| "np_sqrt NaN = NaN"



subsection \<open>The standard normal distribution\<close>

text \<open>
  The density \<open>exp (- x\<^sup>2 / 2)\<close> has the everywhere convergent power series
  \<open>\<Sum>k. (- 1 / 2) ^ k / k! * x ^ (2 * k)\<close>; integrating it term by term from 0 gives
  \<open>gauss_int\<close>, and \<open>ndtr x = 1 / 2 + gauss_int x / sqrt (2 * pi)\<close> is the distribution
  function (scipy's \<^verbatim>\<open>special.ndtr\<close>). \<open>ndtri\<close> is its inverse
  (\<^verbatim>\<open>special.ndtri\<close>).
\<close>

definition gauss_density_coeff :: "nat \<Rightarrow> real" where
  "gauss_density_coeff n = (if even n then (- 1 / 2) ^ (n div 2) / fact (n div 2) else 0)"

definition gauss_coeff :: "nat \<Rightarrow> real" where
  "gauss_coeff n = (case n of 0 \<Rightarrow> 0 | Suc m \<Rightarrow> gauss_density_coeff m / real (Suc m))"

definition gauss_int :: "real \<Rightarrow> real" where
  "gauss_int x = (\<Sum>n. gauss_coeff n * x ^ n)"

definition norm_pdf :: "real \<Rightarrow> real" where
  "norm_pdf x = exp (- (x\<^sup>2) / 2) / sqrt (2 * pi)"

definition ndtr :: "real \<Rightarrow> real" where
  "ndtr x = 1 / 2 + gauss_int x / sqrt (2 * pi)"

definition ndtri :: "real \<Rightarrow> real" where
  "ndtri q = (THE x. ndtr x = q)"

subsection \<open>The three scipy functions the notebook calls\<close>

fun norm_cdf :: "fl \<Rightarrow> fl" where
  "norm_cdf (Fin x) = Fin (ndtr x)"
| "norm_cdf PInf = Fin 1"
| "norm_cdf MInf = Fin 0"
| "norm_cdf NaN = NaN"

definition norm_sf :: "fl \<Rightarrow> fl" where
  "norm_sf x = norm_cdf (fneg x)"

fun norm_ppf :: "fl \<Rightarrow> fl" where
  \<comment> \<open>Outside the closed unit interval the quantile is nan; at its ends it is infinite.\<close>
  "norm_ppf (Fin q) =
     (if 0 < q \<and> q < 1 then Fin (ndtri q)
      else if q = 0 then MInf
      else if q = 1 then PInf
      else NaN)"
| "norm_ppf _ = NaN"

definition norm_isf :: "fl \<Rightarrow> fl" where
  "norm_isf q = fneg (norm_ppf q)"

subsection \<open>The function of the notebook\<close>

definition analytic_power :: "real \<Rightarrow> real \<Rightarrow> real \<Rightarrow> real \<Rightarrow> real \<Rightarrow> fl" where
  "analytic_power n maf beta p_thr sigma =
     (let z_cut = norm_isf (fdiv (Fin p_thr) (Fin 2));
          var_g = fmul (fmul (Fin 2) (Fin maf)) (fsub (Fin 1) (Fin maf));
          ncp = fdiv (fmul (Fin beta) (np_sqrt (fmul (Fin n) var_g))) (Fin sigma)
      in fadd (norm_sf (fsub z_cut ncp)) (norm_cdf (fsub (fneg z_cut) ncp)))"


subsection \<open>The reference definition of the specification\<close>




subsection \<open>Auxiliary notions of the proofs\<close>

text \<open>
  \<open>pw z l\<close> is the value of the function at a finite critical value \<open>z\<close> and a finite
  non-centrality parameter \<open>l\<close>; \<open>ncp_val\<close> is that parameter where it is finite.
  \<open>cos_pow_int k\<close> is the antiderivative of \<open>cos ^ k\<close> that vanishes at 0, by the
  reduction formula, and \<open>wallis k\<close> its value at \<open>pi / 2\<close>: they carry the
  evaluation of the Gaussian integral.
\<close>

definition pw :: "real \<Rightarrow> real \<Rightarrow> real" where
  "pw z l = ndtr (l - z) + ndtr (- z - l)"

definition ncp_val :: "real \<Rightarrow> real \<Rightarrow> real \<Rightarrow> real \<Rightarrow> real" where
  "ncp_val n maf beta sigma = beta * sqrt (n * (2 * maf * (1 - maf))) / sigma"

fun cos_pow_int :: "nat \<Rightarrow> real \<Rightarrow> real" where
  "cos_pow_int 0 t = t"
| "cos_pow_int (Suc 0) t = sin t"
| "cos_pow_int (Suc (Suc k)) t =
     (cos t ^ Suc k * sin t + real (Suc k) * cos_pow_int k t) / real (Suc (Suc k))"

definition wallis :: "nat \<Rightarrow> real" where
  "wallis k = cos_pow_int k (pi / 2)"

section \<open>The standard normal distribution function\<close>

subsection \<open>The power series and its derivative\<close>

text \<open>
  The coefficients of \<open>gauss_int\<close> are those of the density, integrated term by term:
  the series converges everywhere and its derivative is \<open>exp (- x\<^sup>2 / 2)\<close>.
\<close>

lemma diffs_gauss_coeff: "diffs gauss_coeff = gauss_density_coeff"
  by (rule ext) (simp add: diffs_def gauss_coeff_def)

lemma exp_sums_real: "(\<lambda>k. y ^ k / fact k) sums exp (y::real)"
  using exp_converges [of y] by (simp add: field_simps)

lemma sums_even_interleave:
  fixes g :: "nat \<Rightarrow> real"
  assumes "g sums s"
  shows "(\<lambda>n. if even n then g (n div 2) else 0) sums s"
proof -
  define h where "h n = (if even n then 0 else g ((n - 1) div 2))" for n
  have "h sums s"
    unfolding h_def using assms by (rule sums_if')
  then have "h sums (s + h 0)"
    by (simp add: h_def)
  then have "(\<lambda>n. h (Suc n)) sums s"
    by (simp only: sums_Suc_iff)
  moreover have "(\<lambda>n. h (Suc n)) = (\<lambda>n. if even n then g (n div 2) else 0)"
    by (rule ext) (simp add: h_def)
  ultimately show ?thesis by simp
qed

lemma even_power_series_sums:
  fixes c x :: real
  shows "(\<lambda>n. (if even n then c ^ (n div 2) / fact (n div 2) else 0) * x ^ n) sums exp (c * x\<^sup>2)"
proof -
  have "(\<lambda>n. if even n then (c * x\<^sup>2) ^ (n div 2) / fact (n div 2) else 0) sums exp (c * x\<^sup>2)"
    by (rule sums_even_interleave) (rule exp_sums_real)
  moreover have "(if even n then (c * x\<^sup>2) ^ (n div 2) / fact (n div 2) else 0)
      = (if even n then c ^ (n div 2) / fact (n div 2) else 0) * x ^ n" for n
  proof (cases "even n")
    case True
    then obtain k where k: "n = 2 * k" by (auto elim: evenE)
    show ?thesis
      by (simp add: k power_mult_distrib power_mult)
  next
    case False
    then show ?thesis by simp
  qed
  ultimately show ?thesis by simp
qed

lemma gauss_density_sums:
  "(\<lambda>n. gauss_density_coeff n * x ^ n) sums exp (- (x\<^sup>2) / 2)"
  using even_power_series_sums [of "- 1 / 2" x]
  by (simp add: gauss_density_coeff_def [abs_def])

lemma gauss_density_norm_summable:
  "summable (\<lambda>n. norm (gauss_density_coeff n * x ^ n))"
proof -
  have "(\<lambda>n. (if even n then (1 / 2) ^ (n div 2) / fact (n div 2) else 0) * \<bar>x\<bar> ^ n) sums exp (1 / 2 * \<bar>x\<bar>\<^sup>2)"
    by (rule even_power_series_sums)
  moreover have "(if even n then (1 / 2) ^ (n div 2) / fact (n div 2) else 0) * \<bar>x\<bar> ^ n
      = norm (gauss_density_coeff n * x ^ n)" for n
    by (simp add: gauss_density_coeff_def abs_mult power_abs power_divide)
  ultimately show ?thesis by (simp add: sums_iff)
qed

lemma divide_Suc_le_self: "0 \<le> a \<Longrightarrow> a / real (Suc n) \<le> (a::real)"
proof -
  assume a: "0 \<le> a"
  have "a * 1 \<le> a * real (Suc n)"
    using a by (intro mult_left_mono) simp_all
  then show ?thesis
    by (simp add: divide_le_eq)
qed

lemma gauss_coeff_summable: "summable (\<lambda>n. gauss_coeff n * x ^ n)"
proof -
  have "summable (\<lambda>n. norm (gauss_density_coeff n * x ^ n) * \<bar>x\<bar>)"
    using gauss_density_norm_summable by (rule summable_mult2)
  then have "summable (\<lambda>n. norm (gauss_coeff (Suc n) * x ^ Suc n))"
  proof (rule summable_comparison_test [rotated], intro exI allI impI)
    fix n :: nat
    have "norm (gauss_coeff (Suc n) * x ^ Suc n) = norm (gauss_density_coeff n * x ^ n) * \<bar>x\<bar> / real (Suc n)"
      by (simp add: gauss_coeff_def norm_mult norm_divide abs_mult)
    also have "\<dots> \<le> norm (gauss_density_coeff n * x ^ n) * \<bar>x\<bar>"
      by (rule divide_Suc_le_self) simp
    finally show "norm (norm (gauss_coeff (Suc n) * x ^ Suc n)) \<le> norm (gauss_density_coeff n * x ^ n) * \<bar>x\<bar>"
      by simp
  qed
  then have "summable (\<lambda>n. gauss_coeff (Suc n) * x ^ Suc n)"
    by (rule summable_norm_cancel)
  then show ?thesis
    by (subst summable_Suc_iff [symmetric])
qed

lemma DERIV_gauss_int: "DERIV gauss_int x :> exp (- (x\<^sup>2) / 2)"
proof -
  have "((\<lambda>x. \<Sum>n. gauss_coeff n * x ^ n) has_field_derivative (\<Sum>n. diffs gauss_coeff n * x ^ n)) (at x)"
    by (rule termdiffs_strong_converges_everywhere) (rule gauss_coeff_summable)
  moreover have "(\<Sum>n. diffs gauss_coeff n * x ^ n) = exp (- (x\<^sup>2) / 2)"
    unfolding diffs_gauss_coeff using gauss_density_sums [of x] by (simp add: sums_iff)
  ultimately show ?thesis
    by (simp add: gauss_int_def [abs_def])
qed

lemma gauss_int_0: "gauss_int 0 = 0"
  unfolding gauss_int_def by (subst powser_zero) (simp add: gauss_coeff_def)


subsection \<open>Wallis integrals\<close>

text \<open>
  \<open>wallis k\<close> is the integral of \<open>cos ^ k\<close> from 0 to \<open>pi / 2\<close>. The sequence
  decreases and \<open>(k + 1) * wallis (k + 1) * wallis k = pi / 2\<close>, which bounds its squares
  from both sides.
\<close>

lemma cos_pow_int_0: "cos_pow_int k 0 = 0"
proof -
  have "cos_pow_int k t = 0" if "t = 0" for t
    using that by (induction k t rule: cos_pow_int.induct) simp_all
  then show ?thesis by simp
qed

lemma reduction_step_aux:
  fixes s c A K :: real
  assumes "s * s = 1 - c * c"
  shows "K * A * (- s) * s + c * A * c + K * A = (K + 1) * (A * c * c)"
proof -
  have "K * A * (- s) * s = - (K * A) * (s * s)"
    by simp
  also have "\<dots> = - (K * A) * (1 - c * c)"
    by (simp only: assms)
  finally have e: "K * A * (- s) * s = - (K * A) * (1 - c * c)" .
  show ?thesis
    by (subst e) (simp add: algebra_simps)
qed

lemma DERIV_cos_pow_int: "DERIV (cos_pow_int k) t :> cos t ^ k"
proof (induction k t rule: cos_pow_int.induct)
  case (1 t)
  show ?case by (simp add: cos_pow_int.simps(1) [abs_def])
next
  case (2 t)
  show ?case by (auto simp: cos_pow_int.simps(2) [abs_def] intro!: derivative_eq_intros)
next
  case (3 k t)
  have s2: "sin t * sin t = 1 - cos t * cos t"
    using sin_cos_squared_add [of t] by (simp add: power2_eq_square algebra_simps)
  have "DERIV (\<lambda>t. (cos t ^ Suc k * sin t + real (Suc k) * cos_pow_int k t) / real (Suc (Suc k))) t
     :> ((real (Suc k) * cos t ^ k * (- sin t) * sin t + cos t ^ Suc k * cos t)
          + real (Suc k) * cos t ^ k) / real (Suc (Suc k))"
    by (rule derivative_eq_intros "3.IH" refl | simp)+
  moreover have "((real (Suc k) * cos t ^ k * (- sin t) * sin t + cos t ^ Suc k * cos t)
          + real (Suc k) * cos t ^ k) / real (Suc (Suc k)) = cos t ^ Suc (Suc k)"
  proof -
    have "real (Suc k) * cos t ^ k * (- sin t) * sin t + cos t * cos t ^ k * cos t + real (Suc k) * cos t ^ k
        = (real (Suc k) + 1) * (cos t ^ k * cos t * cos t)"
      using s2 by (rule reduction_step_aux)
    moreover have "cos t ^ Suc k * cos t = cos t * cos t ^ k * cos t"
      by simp
    moreover have "(real (Suc k) + 1) * (cos t ^ k * cos t * cos t) = real (Suc (Suc k)) * cos t ^ Suc (Suc k)"
      by (simp add: ac_simps)
    ultimately have num: "(real (Suc k) * cos t ^ k * (- sin t) * sin t + cos t ^ Suc k * cos t)
          + real (Suc k) * cos t ^ k = real (Suc (Suc k)) * cos t ^ Suc (Suc k)"
      by (simp only:)
    show ?thesis
      unfolding num by simp
  qed
  ultimately show ?case
    by (simp add: cos_pow_int.simps(3) [abs_def])
qed

lemma wallis_0: "wallis 0 = pi / 2"
  by (simp add: wallis_def)

lemma wallis_1: "wallis (Suc 0) = 1"
  by (simp add: wallis_def)

lemma wallis_Suc_Suc: "wallis (Suc (Suc k)) = real (Suc k) / real (Suc (Suc k)) * wallis k"
  by (simp add: wallis_def)

lemma wallis_pos: "0 < wallis k"
proof -
  have "0 < wallis k \<and> 0 < wallis (Suc k)"
    by (induction k) (simp_all add: wallis_0 wallis_1 wallis_Suc_Suc)
  then show ?thesis ..
qed

lemma wallis_product: "real (Suc k) * wallis (Suc k) * wallis k = pi / 2"
proof (induction k)
  case 0
  show ?case by (simp add: wallis_0 wallis_1)
next
  case (Suc k)
  have "real (Suc (Suc k)) * wallis (Suc (Suc k)) = real (Suc k) * wallis k"
    by (simp add: wallis_Suc_Suc)
  then have "real (Suc (Suc k)) * wallis (Suc (Suc k)) * wallis (Suc k)
      = real (Suc k) * wallis k * wallis (Suc k)"
    by (simp only:)
  also have "\<dots> = real (Suc k) * wallis (Suc k) * wallis k"
    by (simp only: mult_ac)
  finally show ?case
    using Suc by (simp only:)
qed

lemma cos_pow_int_mono:
  assumes "0 \<le> a" "a \<le> b" "b \<le> pi / 2"
  shows "cos_pow_int k a \<le> cos_pow_int k b"
proof (rule DERIV_nonneg_imp_nondecreasing [OF assms(2)])
  fix t assume t: "a \<le> t" "t \<le> b"
  then have "0 \<le> cos t"
    using assms by (intro cos_ge_zero) auto
  then have "0 \<le> cos t ^ k" by simp
  then show "\<exists>y. DERIV (cos_pow_int k) t :> y \<and> 0 \<le> y"
    using DERIV_cos_pow_int by blast
qed

lemma cos_pow_int_le_wallis:
  assumes "0 \<le> t" "t \<le> pi / 2"
  shows "cos_pow_int k t \<le> wallis k"
  unfolding wallis_def using assms by (intro cos_pow_int_mono) auto

lemma wallis_decreasing: "wallis (Suc k) \<le> wallis k"
proof -
  have "cos_pow_int k 0 - cos_pow_int (Suc k) 0 \<le> cos_pow_int k (pi / 2) - cos_pow_int (Suc k) (pi / 2)"
  proof (rule DERIV_nonneg_imp_nondecreasing [where f = "\<lambda>t. cos_pow_int k t - cos_pow_int (Suc k) t"])
    show "0 \<le> pi / 2" by simp
  next
    fix t :: real assume t: "0 \<le> t" "t \<le> pi / 2"
    then have c: "0 \<le> cos t"
      by (intro cos_ge_zero) auto
    have "cos t ^ Suc k \<le> cos t ^ k"
      using c by (intro power_decreasing) auto
    moreover have "DERIV (\<lambda>t. cos_pow_int k t - cos_pow_int (Suc k) t) t :> cos t ^ k - cos t ^ Suc k"
      by (intro derivative_intros DERIV_cos_pow_int)
    ultimately show "\<exists>y. DERIV (\<lambda>t. cos_pow_int k t - cos_pow_int (Suc k) t) t :> y \<and> 0 \<le> y"
      by (intro exI [of _ "cos t ^ k - cos t ^ Suc k"]) simp
  qed
  then show ?thesis
    by (simp add: wallis_def cos_pow_int_0)
qed

lemma wallis_sq_upper: "real (Suc k) * (wallis (Suc k))\<^sup>2 \<le> pi / 2"
proof -
  have "real (Suc k) * (wallis (Suc k) * wallis (Suc k)) \<le> real (Suc k) * (wallis (Suc k) * wallis k)"
    using wallis_decreasing [of k] wallis_pos [of "Suc k"]
    by (intro mult_left_mono) auto
  also have "\<dots> = pi / 2"
    using wallis_product [of k] by (simp add: mult.assoc)
  finally show ?thesis by (simp add: power2_eq_square)
qed

lemma wallis_sq_lower: "pi / 2 \<le> real (Suc k) * (wallis k)\<^sup>2"
proof -
  have "pi / 2 = real (Suc k) * (wallis (Suc k) * wallis k)"
    using wallis_product [of k] by (simp add: mult.assoc)
  also have "\<dots> \<le> real (Suc k) * (wallis k * wallis k)"
    using wallis_decreasing [of k] wallis_pos [of k]
    by (intro mult_left_mono mult_right_mono) auto
  finally show ?thesis by (simp add: power2_eq_square)
qed

subsection \<open>The Gaussian integral\<close>

text \<open>
  For every positive \<open>n\<close>,
  \<open>(1 - x\<^sup>2 / (2 * n)) ^ n \<le> exp (- x\<^sup>2 / 2) \<le> 1 / (1 + x\<^sup>2 / (2 * n)) ^ n\<close>.
  Substituting \<open>x = sqrt (2 * n) * sin t\<close> on the left and \<open>x = sqrt (2 * n) * tan t\<close> on
  the right turns the integrals of the two bounds into Wallis integrals. Hence
  \<open>gauss_int\<close> stays below \<open>sqrt (pi / 2)\<close> and comes arbitrarily close to it.
\<close>

lemma DERIV_gauss_int_chain:
  assumes "DERIV f x :> d"
  shows "DERIV (\<lambda>x. gauss_int (f x)) x :> exp (- ((f x)\<^sup>2) / 2) * d"
  by (rule DERIV_chain2 [OF DERIV_gauss_int assms])

lemma DERIV_cos_pow_int_chain:
  assumes "DERIV f x :> d"
  shows "DERIV (\<lambda>x. cos_pow_int k (f x)) x :> cos (f x) ^ k * d"
  by (rule DERIV_chain2 [OF DERIV_cos_pow_int assms])


lemma gauss_int_mono: "a \<le> b \<Longrightarrow> gauss_int a \<le> gauss_int b"
proof (rule DERIV_nonneg_imp_nondecreasing [where f = gauss_int])
  fix x :: real
  have "0 \<le> exp (- (x\<^sup>2) / 2)" by simp
  then show "\<exists>y. DERIV gauss_int x :> y \<and> 0 \<le> y"
    using DERIV_gauss_int [of x] by blast
qed

lemma gauss_int_strict_mono: "a < b \<Longrightarrow> gauss_int a < gauss_int b"
proof (rule DERIV_pos_imp_increasing [where f = gauss_int])
  fix x :: real
  have "0 < exp (- (x\<^sup>2) / 2)" by simp
  then show "\<exists>y. DERIV gauss_int x :> y \<and> 0 < y"
    using DERIV_gauss_int [of x] by blast
qed

lemma gauss_int_nonneg: "0 \<le> x \<Longrightarrow> 0 \<le> gauss_int x"
  using gauss_int_mono [of 0 x] by (simp add: gauss_int_0)

lemma cos_arctan_sq: "(cos (arctan s))\<^sup>2 = 1 / (1 + s\<^sup>2)"
proof -
  have "0 < 1 + s\<^sup>2"
    by (rule add_pos_nonneg) simp_all
  then show ?thesis
    by (simp add: cos_arctan power_divide)
qed


lemma gauss_int_upper_aux:
  assumes x: "0 \<le> x"
  shows "gauss_int x \<le> sqrt (2 * real (Suc m)) * cos_pow_int (2 * m) (arctan (x / sqrt (2 * real (Suc m))))"
proof -
  define r where "r = sqrt (2 * real (Suc m))"
  have r: "0 < r" and r2: "r\<^sup>2 = 2 * real (Suc m)"
    by (simp_all add: r_def)
  define D where "D y = r * cos_pow_int (2 * m) (arctan (y / r)) - gauss_int y" for y
  have "D 0 \<le> D x"
  proof (rule DERIV_nonneg_imp_nondecreasing [OF x])
    fix y :: real
    define s where "s = y / r"
    have pos: "0 < 1 + s\<^sup>2"
      by (rule add_pos_nonneg) simp_all
    have d1: "DERIV (\<lambda>y. y / r) y :> 1 / r"
      using r by (auto intro!: derivative_eq_intros)
    have d2: "DERIV (\<lambda>y. arctan (y / r)) y :> inverse (1 + s\<^sup>2) * (1 / r)"
      unfolding s_def by (rule DERIV_chain2 [OF DERIV_arctan d1])
    have d3: "DERIV (\<lambda>y. cos_pow_int (2 * m) (arctan (y / r))) y
        :> cos (arctan s) ^ (2 * m) * (inverse (1 + s\<^sup>2) * (1 / r))"
      unfolding s_def by (rule DERIV_cos_pow_int_chain [OF d2 [unfolded s_def]])
    have d4: "DERIV (\<lambda>y. r * cos_pow_int (2 * m) (arctan (y / r))) y
        :> r * (cos (arctan s) ^ (2 * m) * (inverse (1 + s\<^sup>2) * (1 / r)))"
      by (rule DERIV_cmult [OF d3])
    have d5: "DERIV D y :> r * (cos (arctan s) ^ (2 * m) * (inverse (1 + s\<^sup>2) * (1 / r))) - exp (- (y\<^sup>2) / 2)"
      unfolding D_def [abs_def] by (rule DERIV_diff [OF d4 DERIV_gauss_int])
    have e1: "r * (cos (arctan s) ^ (2 * m) * (inverse (1 + s\<^sup>2) * (1 / r)))
        = 1 / (1 + s\<^sup>2) ^ Suc m"
    proof -
      have "cos (arctan s) ^ (2 * m) = (1 / (1 + s\<^sup>2)) ^ m"
        by (simp add: power_mult cos_arctan_sq)
      then show ?thesis
        using r by (simp add: power_divide inverse_eq_divide)
    qed
    have e2: "exp (- (y\<^sup>2) / 2) \<le> 1 / (1 + s\<^sup>2) ^ Suc m"
    proof -
      have s2: "s\<^sup>2 = (y\<^sup>2 / 2) / real (Suc m)"
        using r by (simp add: s_def power_divide r2)
      have "(1 + (y\<^sup>2 / 2) / real (Suc m)) ^ Suc m \<le> exp (y\<^sup>2 / 2)"
      proof (rule exp_ge_one_plus_x_over_n_power_n)
        have "- real (Suc m) \<le> 0" by simp
        also have "0 \<le> y\<^sup>2 / 2" by simp
        finally show "- real (Suc m) \<le> y\<^sup>2 / 2" .
      qed simp
      then have "(1 + s\<^sup>2) ^ Suc m \<le> exp (y\<^sup>2 / 2)"
        by (simp only: s2)
      moreover have "0 < (1 + s\<^sup>2) ^ Suc m"
        using pos by (rule zero_less_power)
      ultimately have "1 / exp (y\<^sup>2 / 2) \<le> 1 / (1 + s\<^sup>2) ^ Suc m"
        by (intro divide_left_mono) simp_all
      then show ?thesis
        by (simp add: exp_minus inverse_eq_divide)
    qed
    from d5 e2 show "\<exists>d. DERIV D y :> d \<and> 0 \<le> d"
      unfolding e1 by (intro exI [of _ "1 / (1 + s\<^sup>2) ^ Suc m - exp (- (y\<^sup>2) / 2)"]) simp
  qed
  then show ?thesis
    by (simp add: D_def r_def cos_pow_int_0 gauss_int_0)
qed

lemma sin_sq_le_one: "(sin t)\<^sup>2 \<le> (1::real)"
  using sin_cos_squared_add [of t] zero_le_power2 [of "cos t"] by linarith

lemma gauss_int_lower_aux:
  "sqrt (2 * real (Suc n)) * wallis (Suc (2 * Suc n)) \<le> gauss_int (sqrt (2 * real (Suc n)))"
proof -
  define r where "r = sqrt (2 * real (Suc n))"
  have r: "0 < r" and r2: "r\<^sup>2 = 2 * real (Suc n)"
    by (simp_all add: r_def)
  define F where "F t = gauss_int (r * sin t) - r * cos_pow_int (Suc (2 * Suc n)) t" for t
  have "F 0 \<le> F (pi / 2)"
  proof (rule DERIV_nonneg_imp_nondecreasing [where f = F and a = 0 and b = "pi / 2"])
    show "0 \<le> pi / 2" by simp
  next
    fix t :: real
    assume t: "0 \<le> t" "t \<le> pi / 2"
    then have c: "0 \<le> cos t"
      by (intro cos_ge_zero) auto
    have d1: "DERIV (\<lambda>t. r * sin t) t :> r * cos t"
      by (rule DERIV_cmult [OF DERIV_sin])
    have d2: "DERIV (\<lambda>t. gauss_int (r * sin t)) t :> exp (- ((r * sin t)\<^sup>2) / 2) * (r * cos t)"
      by (rule DERIV_gauss_int_chain [OF d1])
    have d3: "DERIV (\<lambda>t. r * cos_pow_int (Suc (2 * Suc n)) t) t :> r * cos t ^ Suc (2 * Suc n)"
      by (rule DERIV_cmult [OF DERIV_cos_pow_int])
    have d4: "DERIV F t :> exp (- ((r * sin t)\<^sup>2) / 2) * (r * cos t) - r * cos t ^ Suc (2 * Suc n)"
      unfolding F_def [abs_def] by (rule DERIV_diff [OF d2 d3])
    have le: "r * cos t ^ Suc (2 * Suc n) \<le> exp (- ((r * sin t)\<^sup>2) / 2) * (r * cos t)"
    proof -
      have e: "(r * sin t)\<^sup>2 / 2 = real (Suc n) * (sin t)\<^sup>2"
        by (simp add: power_mult_distrib r2)
      have "(1 - (real (Suc n) * (sin t)\<^sup>2) / real (Suc n)) ^ Suc n \<le> exp (- (real (Suc n) * (sin t)\<^sup>2))"
      proof (rule exp_ge_one_minus_x_over_n_power_n)
        have "real (Suc n) * (sin t)\<^sup>2 \<le> real (Suc n) * 1"
          using sin_sq_le_one [of t] by (intro mult_left_mono) simp_all
        then show "real (Suc n) * (sin t)\<^sup>2 \<le> real (Suc n)" by simp
      qed simp
      moreover have "1 - (real (Suc n) * (sin t)\<^sup>2) / real (Suc n) = (cos t)\<^sup>2"
        by (simp add: cos_squared_eq)
      ultimately have "((cos t)\<^sup>2) ^ Suc n \<le> exp (- ((r * sin t)\<^sup>2 / 2))"
        by (simp only: e)
      then have "cos t ^ (2 * Suc n) \<le> exp (- ((r * sin t)\<^sup>2) / 2)"
        by (simp only: power_mult minus_divide_left)
      then have "cos t ^ (2 * Suc n) * (r * cos t) \<le> exp (- ((r * sin t)\<^sup>2) / 2) * (r * cos t)"
        using r c by (intro mult_right_mono) simp_all
      moreover have "cos t ^ (2 * Suc n) * (r * cos t) = r * cos t ^ Suc (2 * Suc n)"
        by simp
      ultimately show ?thesis
        by (simp only:)
    qed
    from d4 le show "\<exists>d. DERIV F t :> d \<and> 0 \<le> d"
      by (intro exI [of _ "exp (- ((r * sin t)\<^sup>2) / 2) * (r * cos t) - r * cos t ^ Suc (2 * Suc n)"]) simp
  qed
  then show ?thesis
    by (simp add: F_def r_def cos_pow_int_0 gauss_int_0 wallis_def)
qed

lemma gauss_int_sq_upper_aux:
  assumes x: "0 \<le> x"
  shows "(gauss_int x)\<^sup>2 \<le> pi / 2 + (pi / 2) / real (Suc j)"
proof -
  define r where "r = sqrt (2 * real (Suc (Suc j)))"
  define a where "a = (wallis (2 * Suc j))\<^sup>2"
  define M where "M = real (Suc j)"
  have M: "0 < M" by (simp add: M_def)
  have r: "0 \<le> r" and r2: "r\<^sup>2 = 2 * (M + 1)"
    by (simp_all add: r_def M_def)
  have a: "0 \<le> a" by (simp add: a_def)
  have "0 \<le> x / r"
    using x r by simp
  then have "0 \<le> arctan (x / r)" "arctan (x / r) \<le> pi / 2"
    using arctan_ubound [of "x / r"] by (simp_all add: less_imp_le)
  then have "cos_pow_int (2 * Suc j) (arctan (x / r)) \<le> wallis (2 * Suc j)"
    by (rule cos_pow_int_le_wallis)
  then have "r * cos_pow_int (2 * Suc j) (arctan (x / r)) \<le> r * wallis (2 * Suc j)"
    using r by (rule mult_left_mono)
  moreover have "gauss_int x \<le> r * cos_pow_int (2 * Suc j) (arctan (x / r))"
    unfolding r_def using x by (rule gauss_int_upper_aux)
  ultimately have "gauss_int x \<le> r * wallis (2 * Suc j)"
    by (rule order_trans [rotated])
  then have "(gauss_int x)\<^sup>2 \<le> (r * wallis (2 * Suc j))\<^sup>2"
    using gauss_int_nonneg [OF x] by (intro power_mono)
  also have "\<dots> = 2 * (M + 1) * a"
    by (simp add: power_mult_distrib r2 a_def)
  finally have g: "(gauss_int x)\<^sup>2 \<le> 2 * (M + 1) * a" .
  have w: "2 * M * a \<le> pi / 2"
    using wallis_sq_upper [of "Suc (2 * j)"] by (simp add: a_def M_def algebra_simps)
  have "2 * a = (2 * M * a) / M"
    using M by simp
  also have "\<dots> \<le> (pi / 2) / M"
    using w M by (intro divide_right_mono) simp_all
  finally have "2 * a \<le> (pi / 2) / M" .
  with w have "2 * (M + 1) * a \<le> pi / 2 + (pi / 2) / M"
    by (simp add: algebra_simps)
  with g show ?thesis
    unfolding M_def by (rule order_trans)
qed

lemma gauss_int_sq_le:
  assumes x: "0 \<le> x"
  shows "(gauss_int x)\<^sup>2 \<le> pi / 2"
proof (rule field_le_epsilon)
  fix e :: real
  assume e: "0 < e"
  have "0 < e / (pi / 2)"
    using e by simp
  then obtain j where j: "inverse (real (Suc j)) < e / (pi / 2)"
    using reals_Archimedean by blast
  have "(pi / 2) / real (Suc j) = (pi / 2) * inverse (real (Suc j))"
    by (rule divide_inverse)
  also have "\<dots> \<le> (pi / 2) * (e / (pi / 2))"
    using j by (intro mult_left_mono) simp_all
  also have "\<dots> = e"
    by simp
  finally have "(pi / 2) / real (Suc j) \<le> e" .
  with gauss_int_sq_upper_aux [OF x, of j] show "(gauss_int x)\<^sup>2 \<le> pi / 2 + e"
    by linarith
qed

lemma gauss_int_sq_lower_aux:
  "pi / 2 - (pi / 2) / real (Suc (Suc n)) \<le> (gauss_int (sqrt (2 * real (Suc n))))\<^sup>2"
proof -
  define r where "r = sqrt (2 * real (Suc n))"
  define a where "a = (wallis (Suc (2 * Suc n)))\<^sup>2"
  define K where "K = real (Suc n)"
  have K: "0 < K" by (simp add: K_def)
  have r: "0 \<le> r" and r2: "r\<^sup>2 = 2 * K"
    by (simp_all add: r_def K_def)
  have "0 \<le> r * wallis (Suc (2 * Suc n))"
    using r wallis_pos [of "Suc (2 * Suc n)"] by simp
  moreover have "r * wallis (Suc (2 * Suc n)) \<le> gauss_int r"
    unfolding r_def by (rule gauss_int_lower_aux)
  ultimately have "(r * wallis (Suc (2 * Suc n)))\<^sup>2 \<le> (gauss_int r)\<^sup>2"
    by (intro power_mono)
  then have g: "2 * K * a \<le> (gauss_int r)\<^sup>2"
    by (simp add: power_mult_distrib r2 a_def)
  have w: "pi / 2 \<le> (2 * K + 2) * a"
    using wallis_sq_lower [of "Suc (2 * Suc n)"] by (simp add: a_def K_def algebra_simps)
  have "pi / 2 - (pi / 2) / (K + 1) = (pi / 2) * (K / (K + 1))"
    using K by (simp add: field_simps)
  also have "\<dots> \<le> ((2 * K + 2) * a) * (K / (K + 1))"
    using w K by (intro mult_right_mono) simp_all
  also have "\<dots> = 2 * K * a"
    using K by (simp add: field_simps)
  finally have "pi / 2 - (pi / 2) / (K + 1) \<le> 2 * K * a" .
  with g have "pi / 2 - (pi / 2) / (K + 1) \<le> (gauss_int r)\<^sup>2"
    by (rule order_trans [rotated])
  moreover have "K + 1 = real (Suc (Suc n))"
    by (simp add: K_def)
  ultimately show ?thesis
    by (simp only: r_def)
qed

lemma gauss_int_approach:
  assumes y: "y < sqrt (pi / 2)"
  shows "\<exists>x. y < gauss_int x"
proof (cases "y < 0")
  case True
  then have "y < gauss_int 0" by (simp add: gauss_int_0)
  then show ?thesis ..
next
  case False
  then have y0: "0 \<le> y" by simp
  have "y\<^sup>2 < (sqrt (pi / 2))\<^sup>2"
    using y0 y by (intro power_strict_mono) simp_all
  then have y2: "y\<^sup>2 < pi / 2" by simp
  define d where "d = pi / 2 - y\<^sup>2"
  have d: "0 < d" using y2 by (simp add: d_def)
  then have "0 < d / (pi / 2)" by simp
  then obtain n where n: "inverse (real (Suc n)) < d / (pi / 2)"
    using reals_Archimedean by blast
  have "inverse (real (Suc (Suc n))) \<le> inverse (real (Suc n))"
    by (intro le_imp_inverse_le) simp_all
  with n have n': "inverse (real (Suc (Suc n))) < d / (pi / 2)"
    by (rule order.strict_trans1 [rotated])
  have "(pi / 2) / real (Suc (Suc n)) = (pi / 2) * inverse (real (Suc (Suc n)))"
    by (rule divide_inverse)
  also have "\<dots> < (pi / 2) * (d / (pi / 2))"
    using n' by (intro mult_strict_left_mono) simp_all
  also have "\<dots> = d" by simp
  finally have "(pi / 2) / real (Suc (Suc n)) < d" .
  with gauss_int_sq_lower_aux [of n]
  have "y\<^sup>2 < (gauss_int (sqrt (2 * real (Suc n))))\<^sup>2"
    by (simp add: d_def)
  moreover have "0 \<le> gauss_int (sqrt (2 * real (Suc n)))"
    by (rule gauss_int_nonneg) simp
  ultimately have "y < gauss_int (sqrt (2 * real (Suc n)))"
    by (rule power2_less_imp_less)
  then show ?thesis ..
qed

lemma gauss_int_odd: "gauss_int (- x) = - gauss_int x"
proof -
  have "DERIV (\<lambda>x. gauss_int (- x) + gauss_int x) t :> 0" for t
  proof -
    have "DERIV (\<lambda>x. - x) t :> - 1"
      by (auto intro!: derivative_eq_intros)
    then have "DERIV (\<lambda>x. gauss_int (- x)) t :> exp (- ((- t)\<^sup>2) / 2) * (- 1)"
      by (rule DERIV_gauss_int_chain)
    then have "DERIV (\<lambda>x. gauss_int (- x) + gauss_int x) t :> exp (- ((- t)\<^sup>2) / 2) * (- 1) + exp (- (t\<^sup>2) / 2)"
      using DERIV_gauss_int by (rule DERIV_add)
    then show ?thesis by simp
  qed
  then have "\<forall>t. DERIV (\<lambda>x. gauss_int (- x) + gauss_int x) t :> 0" ..
  then have "gauss_int (- x) + gauss_int x = gauss_int (- 0) + gauss_int 0"
    by (rule DERIV_isconst_all)
  then show ?thesis
    by (simp add: gauss_int_0)
qed

lemma gauss_int_less: "gauss_int x < sqrt (pi / 2)"
proof -
  have "gauss_int x < gauss_int (\<bar>x\<bar> + 1)"
    by (rule gauss_int_strict_mono) linarith
  also have "\<dots> \<le> sqrt (pi / 2)"
  proof (rule real_le_rsqrt)
    show "(gauss_int (\<bar>x\<bar> + 1))\<^sup>2 \<le> pi / 2"
      by (rule gauss_int_sq_le) simp
  qed
  finally show ?thesis .
qed

lemma gauss_int_greater: "- sqrt (pi / 2) < gauss_int x"
  using gauss_int_less [of "- x"] by (simp add: gauss_int_odd)

subsection \<open>The distribution function and its inverse\<close>

text \<open>
  \<open>ndtr\<close> has the Gaussian density as derivative, is strictly increasing and continuous,
  satisfies \<open>ndtr (- x) = 1 - ndtr x\<close>, takes its values strictly between 0 and 1 and
  takes every such value: \<open>ndtri\<close> is its inverse on the open unit interval.
\<close>

lemma norm_pdf_pos: "0 < norm_pdf x"
  by (simp add: norm_pdf_def)

lemma DERIV_ndtr: "DERIV ndtr x :> norm_pdf x"
proof -
  have "DERIV (\<lambda>x. gauss_int x / sqrt (2 * pi)) x :> exp (- (x\<^sup>2) / 2) / sqrt (2 * pi)"
    by (rule DERIV_cdivide [OF DERIV_gauss_int])
  then have "DERIV (\<lambda>x. 1 / 2 + gauss_int x / sqrt (2 * pi)) x :> 0 + exp (- (x\<^sup>2) / 2) / sqrt (2 * pi)"
    by (intro DERIV_add DERIV_const)
  then show ?thesis
    by (simp add: ndtr_def [abs_def] norm_pdf_def)
qed

lemma DERIV_ndtr_chain:
  assumes "DERIV f x :> d"
  shows "DERIV (\<lambda>x. ndtr (f x)) x :> norm_pdf (f x) * d"
  by (rule DERIV_chain2 [OF DERIV_ndtr assms])

lemma isCont_ndtr: "isCont ndtr x"
  using DERIV_ndtr by (rule DERIV_isCont)

lemma ndtr_strict_mono: "a < b \<Longrightarrow> ndtr a < ndtr b"
  using gauss_int_strict_mono [of a b] by (simp add: ndtr_def divide_strict_right_mono)

lemma ndtr_less_iff: "ndtr a < ndtr b \<longleftrightarrow> a < b"
proof
  assume "ndtr a < ndtr b"
  show "a < b"
  proof (rule ccontr)
    assume "\<not> a < b"
    then have "b = a \<or> b < a" by auto
    then have "ndtr b \<le> ndtr a"
      using ndtr_strict_mono [of b a] by auto
    with \<open>ndtr a < ndtr b\<close> show False by simp
  qed
qed (rule ndtr_strict_mono)

lemma ndtr_le_iff: "ndtr a \<le> ndtr b \<longleftrightarrow> a \<le> b"
  using ndtr_less_iff [of b a] by (simp add: not_less [symmetric])

lemma ndtr_eq_iff: "ndtr a = ndtr b \<longleftrightarrow> a = b"
  using ndtr_le_iff [of a b] ndtr_le_iff [of b a] by auto

lemma ndtr_minus: "ndtr (- x) = 1 - ndtr x"
  by (simp add: ndtr_def gauss_int_odd)

lemma ndtr_0: "ndtr 0 = 1 / 2"
  by (simp add: ndtr_def gauss_int_0)

lemma half_sqrt: "sqrt (pi / 2) / sqrt (2 * pi) = 1 / 2"
proof -
  have "sqrt (pi / 2) / sqrt (2 * pi) = sqrt ((pi / 2) / (2 * pi))"
    by (simp only: real_sqrt_divide)
  also have "(pi / 2) / (2 * pi) = (1 / 2)\<^sup>2"
    by (simp add: power2_eq_square)
  also have "sqrt ((1 / 2)\<^sup>2) = 1 / 2"
    by (simp only: real_sqrt_abs)
  finally show ?thesis .
qed

lemma ndtr_less_one: "ndtr x < 1"
proof -
  have "gauss_int x / sqrt (2 * pi) < sqrt (pi / 2) / sqrt (2 * pi)"
    using gauss_int_less [of x] by (intro divide_strict_right_mono) simp_all
  then have "gauss_int x / sqrt (2 * pi) < 1 / 2"
    by (simp only: half_sqrt)
  then show ?thesis
    unfolding ndtr_def by linarith
qed

lemma ndtr_pos: "0 < ndtr x"
  using ndtr_less_one [of "- x"] by (simp add: ndtr_minus)

lemma ndtr_exceeds:
  assumes "q < 1"
  shows "\<exists>b. q < ndtr b"
proof -
  have "(q - 1 / 2) * sqrt (2 * pi) < (1 / 2) * sqrt (2 * pi)"
    using assms by (intro mult_strict_right_mono) simp_all
  also have "(1 / 2) * sqrt (2 * pi) = sqrt (pi / 2)"
  proof -
    have "sqrt (pi / 2) = (sqrt (pi / 2) / sqrt (2 * pi)) * sqrt (2 * pi)"
      by simp
    then show ?thesis
      by (simp only: half_sqrt)
  qed
  finally obtain b where b: "(q - 1 / 2) * sqrt (2 * pi) < gauss_int b"
    using gauss_int_approach by blast
  then have "q - 1 / 2 < gauss_int b / sqrt (2 * pi)"
    by (simp add: pos_less_divide_eq)
  then have "q < ndtr b"
    by (simp add: ndtr_def)
  then show ?thesis ..
qed

lemma ndtr_surj:
  assumes "0 < q" "q < 1"
  shows "\<exists>x. ndtr x = q"
proof -
  obtain b where b: "q < ndtr b"
    using ndtr_exceeds [OF assms(2)] by blast
  have "1 - q < 1" using assms by simp
  then obtain c where c: "1 - q < ndtr c"
    using ndtr_exceeds by blast
  then have a: "ndtr (- c) < q"
    by (simp add: ndtr_minus)
  from a b have "ndtr (- c) < ndtr b" by simp
  then have "- c \<le> b"
    by (simp add: ndtr_less_iff)
  moreover have "\<forall>x. - c \<le> x \<and> x \<le> b \<longrightarrow> isCont ndtr x"
    by (simp add: isCont_ndtr)
  ultimately have "\<exists>x. - c \<le> x \<and> x \<le> b \<and> ndtr x = q"
    using a b by (intro IVT) simp_all
  then show ?thesis by blast
qed

lemma ndtri_ndtr: "ndtri (ndtr x) = x"
  unfolding ndtri_def by (rule the_equality) (simp_all add: ndtr_eq_iff)

lemma ndtr_ndtri:
  assumes "0 < q" "q < 1"
  shows "ndtr (ndtri q) = q"
proof -
  obtain x where "ndtr x = q"
    using ndtr_surj [OF assms] by blast
  then show ?thesis
    using ndtri_ndtr [of x] by simp
qed




lemma ndtri_reflect:
  assumes "0 < q" "q < 1"
  shows "ndtri (1 - q) = - ndtri q"
proof -
  have "ndtr (- ndtri q) = 1 - q"
    using assms by (simp add: ndtr_minus ndtr_ndtri)
  then show ?thesis
    using ndtri_ndtr [of "- ndtri q"] by simp
qed

text \<open>
  With its derivative and its limits, \<open>ndtr\<close> is the distribution function of the
  standard normal law and of no other.
\<close>

lemma ndtr_at_top: "(ndtr \<longlongrightarrow> 1) at_top"
proof (rule order_tendstoI)
  fix a :: real assume "a < 1"
  then obtain b where b: "a < ndtr b"
    using ndtr_exceeds by blast
  have "a < ndtr x" if "b \<le> x" for x
  proof -
    have "ndtr b \<le> ndtr x"
      using that by (simp only: ndtr_le_iff)
    with b show ?thesis by simp
  qed
  then show "eventually (\<lambda>x. a < ndtr x) at_top"
    unfolding eventually_at_top_linorder by blast
next
  fix a :: real assume "1 < a"
  then have "ndtr x < a" for x
    using ndtr_less_one [of x] by simp
  then show "eventually (\<lambda>x. ndtr x < a) at_top"
    by simp
qed

lemma ndtr_at_bot: "(ndtr \<longlongrightarrow> 0) at_bot"
proof (rule order_tendstoI)
  fix a :: real assume "a < 0"
  then have "a < ndtr x" for x
    using ndtr_pos [of x] by simp
  then show "eventually (\<lambda>x. a < ndtr x) at_bot"
    by simp
next
  fix a :: real assume "0 < a"
  then have "1 - a < 1" by simp
  then obtain b where b: "1 - a < ndtr b"
    using ndtr_exceeds by blast
  have "ndtr x < a" if "x \<le> - b" for x
  proof -
    have "ndtr x \<le> ndtr (- b)"
      using that by (simp only: ndtr_le_iff)
    also have "\<dots> < a"
      using b by (simp add: ndtr_minus)
    finally show ?thesis .
  qed
  then show "eventually (\<lambda>x. ndtr x < a) at_bot"
    unfolding eventually_at_bot_linorder by blast
qed

section \<open>The library functions on finite arguments\<close>

text \<open>
  On finite arguments the three functions are what scipy documents: \<open>cdf\<close> is a
  probability, \<open>sf = 1 - cdf\<close>, and \<open>isf\<close> is the inverse of \<open>sf\<close>.
\<close>

lemma norm_cdf_Fin_range: "\<exists>r. norm_cdf (Fin x) = Fin r \<and> 0 < r \<and> r < 1"
  by (simp add: ndtr_pos ndtr_less_one)

lemma norm_sf_Fin: "norm_sf (Fin x) = Fin (1 - ndtr x)"
  by (simp add: norm_sf_def ndtr_minus)

lemma norm_isf_Fin:
  assumes "0 < q" "q < 1"
  shows "norm_isf (Fin q) = Fin (- ndtri q)"
  using assms by (simp add: norm_isf_def)

lemma norm_sf_isf:
  assumes "0 < q" "q < 1"
  shows "norm_sf (norm_isf (Fin q)) = Fin q"
  using assms by (simp add: norm_isf_def norm_sf_def ndtr_ndtri)

lemma norm_isf_sf: "norm_isf (norm_sf (Fin x)) = Fin x"
  by (simp add: norm_isf_def norm_sf_def ndtr_pos ndtr_less_one ndtri_ndtr)

section \<open>The function on finite values\<close>

lemma analytic_power_Fin:
  assumes "0 < p" "p < 2" "0 \<le> n * (2 * maf * (1 - maf))" "sigma \<noteq> 0"
  shows "analytic_power n maf beta p sigma = Fin (pw (- ndtri (p / 2)) (ncp_val n maf beta sigma))"
  using assms by (simp add: analytic_power_def norm_isf_def norm_sf_def fsub_def pw_def ncp_val_def Let_def not_less [symmetric])

lemma norm_pdf_antimono_abs:
  assumes "\<bar>a\<bar> \<le> \<bar>b\<bar>"
  shows "norm_pdf b \<le> norm_pdf a"
proof -
  have "a\<^sup>2 \<le> b\<^sup>2"
    using assms by (simp only: abs_le_square_iff)
  then have "exp (- (b\<^sup>2) / 2) \<le> exp (- (a\<^sup>2) / 2)"
    by simp
  then show ?thesis
    unfolding norm_pdf_def by (intro divide_right_mono) simp_all
qed






lemma pw_pos: "0 < pw z l"
  unfolding pw_def by (intro add_pos_pos ndtr_pos)







lemma valid_radicand:
  fixes n maf :: real
  assumes "0 \<le> n" "0 \<le> maf" "maf \<le> 1"
  shows "0 \<le> n * (2 * maf * (1 - maf))"
  using assms by (intro mult_nonneg_nonneg) simp_all





lemma analytic_power_valid:
  assumes "0 \<le> n" "0 \<le> maf" "maf \<le> 1" "0 < p_thr" "p_thr < 2" "sigma \<noteq> 0"
  shows "analytic_power n maf beta p_thr sigma
    = Fin (pw (- ndtri (p_thr / 2)) (ncp_val n maf beta sigma))"
proof -
  have "0 \<le> n * (2 * maf * (1 - maf))"
    using assms by (intro valid_radicand) simp_all
  then show ?thesis
    using assms by (intro analytic_power_Fin) simp_all
qed





section \<open>Tail bounds and numerical estimates\<close>

lemma norm_pdf_minus: "norm_pdf (- x) = norm_pdf x"
  by (simp add: norm_pdf_def)

lemma DERIV_norm_pdf: "DERIV norm_pdf t :> - t * norm_pdf t"
proof -
  have "DERIV (\<lambda>t. - (t\<^sup>2) / 2) t :> - t"
    by (auto intro!: derivative_eq_intros)
  then have "DERIV (\<lambda>t. exp (- (t\<^sup>2) / 2)) t :> exp (- (t\<^sup>2) / 2) * (- t)"
    by (rule DERIV_chain2 [OF DERIV_exp])
  then have d: "DERIV (\<lambda>t. exp (- (t\<^sup>2) / 2) / sqrt (2 * pi)) t
      :> exp (- (t\<^sup>2) / 2) * (- t) / sqrt (2 * pi)"
    by (rule DERIV_cdivide)
  have e: "exp (- (t\<^sup>2) / 2) * (- t) / sqrt (2 * pi) = - t * norm_pdf t"
    by (simp add: norm_pdf_def)
  show ?thesis
    using d unfolding e norm_pdf_def [abs_def] .
qed

lemma DERIV_ndtr_minus: "DERIV (\<lambda>t. ndtr (- t)) t :> - norm_pdf t"
proof -
  have "DERIV (\<lambda>t. - t) t :> - 1"
    by (auto intro!: derivative_eq_intros)
  then have "DERIV (\<lambda>t. ndtr (- t)) t :> norm_pdf (- t) * (- 1)"
    by (rule DERIV_ndtr_chain)
  then show ?thesis
    by (simp add: norm_pdf_minus)
qed

lemma sqrt_two_pi_ge_two: "2 \<le> sqrt (2 * pi)"
proof -
  have "sqrt 4 \<le> sqrt (2 * pi)"
    using pi_ge_two by (subst real_sqrt_le_iff) simp
  moreover have "sqrt 4 = 2"
    using real_sqrt_abs [of 2] by simp
  ultimately show ?thesis by simp
qed

lemma norm_pdf_le_one: "norm_pdf x \<le> 1"
proof -
  have "exp (- (x\<^sup>2) / 2) \<le> 1"
    by simp
  moreover have "1 \<le> sqrt (2 * pi)"
    using sqrt_two_pi_ge_two by linarith
  ultimately have "exp (- (x\<^sup>2) / 2) / sqrt (2 * pi) \<le> 1 / 1"
    by (intro frac_le) simp_all
  then show ?thesis
    by (simp add: norm_pdf_def)
qed

lemma ndtr_tail_small:
  assumes "0 < e"
  shows "\<exists>y. x \<le> y \<and> ndtr (- y) < e"
proof -
  have "1 - e < 1" using assms by simp
  then obtain b where b: "1 - e < ndtr b"
    using ndtr_exceeds by blast
  have "ndtr b \<le> ndtr (max x b)"
    by (simp add: ndtr_le_iff)
  with b have "ndtr (- max x b) < e"
    by (simp add: ndtr_minus)
  then show ?thesis
    by (intro exI [of _ "max x b"]) simp
qed

lemma mills_upper:
  assumes x: "0 < x"
  shows "ndtr (- x) \<le> norm_pdf x / x"
proof -
  define h where "h t = norm_pdf t / t - ndtr (- t)" for t
  have mono: "h y \<le> h x" if "x \<le> y" for y
  proof (rule DERIV_nonpos_imp_nonincreasing [where f = h, OF that])
    fix t assume t: "x \<le> t" "t \<le> y"
    then have t0: "0 < t" using x by simp
    have "DERIV h t :> ((- t * norm_pdf t) * t - norm_pdf t * 1) / (t * t) - (- norm_pdf t)"
      unfolding h_def [abs_def]
      by (intro DERIV_diff DERIV_divide DERIV_norm_pdf DERIV_ndtr_minus DERIV_ident) (use t0 in simp)
    moreover have "((- t * norm_pdf t) * t - norm_pdf t * 1) / (t * t) - (- norm_pdf t) = - (norm_pdf t / (t * t))"
      using t0 by (simp add: field_simps)
    moreover have "0 \<le> norm_pdf t / (t * t)"
      using norm_pdf_pos [of t] t0 by simp
    ultimately show "\<exists>d. DERIV h t :> d \<and> d \<le> 0"
      by (intro exI [of _ "- (norm_pdf t / (t * t))"]) simp
  qed
  have "0 \<le> h x"
  proof (rule field_le_epsilon)
    fix e :: real assume e: "0 < e"
    obtain y where y: "x \<le> y" "ndtr (- y) < e"
      using ndtr_tail_small [OF e] by blast
    have "0 \<le> norm_pdf y / y"
      using norm_pdf_pos [of y] x y by simp
    then have "- e \<le> h y"
      using y by (simp add: h_def)
    also have "h y \<le> h x"
      using y by (intro mono)
    finally show "0 \<le> h x + e" by simp
  qed
  then show ?thesis
    by (simp add: h_def)
qed

lemma mills_lower:
  assumes x: "0 < x"
  shows "norm_pdf x * (1 / x - 1 / x ^ 3) \<le> ndtr (- x)"
proof -
  define k where "k t = ndtr (- t) - norm_pdf t * (1 / t - 1 / t ^ 3)" for t
  have mono: "k y \<le> k x" if "x \<le> y" for y
  proof (rule DERIV_nonpos_imp_nonincreasing [where f = k, OF that])
    fix t assume t: "x \<le> t" "t \<le> y"
    then have t0: "0 < t" using x by simp
    have d1: "DERIV (\<lambda>t. 1 / t - 1 / t ^ 3) t :> - (1 / (t * t)) + 3 / t ^ 4"
      using t0 by (auto intro!: derivative_eq_intros simp: field_simps power_eq_if)
    have "DERIV k t :> - norm_pdf t - ((- t * norm_pdf t) * (1 / t - 1 / t ^ 3) + (- (1 / (t * t)) + 3 / t ^ 4) * norm_pdf t)"
      unfolding k_def [abs_def]
      by (intro DERIV_diff DERIV_mult DERIV_norm_pdf DERIV_ndtr_minus d1)
    moreover have "- norm_pdf t - ((- t * norm_pdf t) * (1 / t - 1 / t ^ 3) + (- (1 / (t * t)) + 3 / t ^ 4) * norm_pdf t)
        = - (3 * norm_pdf t / t ^ 4)"
      using t0 by (simp add: field_simps power_eq_if)
    moreover have "0 \<le> 3 * norm_pdf t / t ^ 4"
      using norm_pdf_pos [of t] t0 by simp
    ultimately show "\<exists>d. DERIV k t :> d \<and> d \<le> 0"
      by (intro exI [of _ "- (3 * norm_pdf t / t ^ 4)"]) simp
  qed
  have "0 \<le> k x"
  proof (rule field_le_epsilon)
    fix e :: real assume e: "0 < e"
    define y where "y = max x (1 / e)"
    have y: "x \<le> y" "1 / e \<le> y" "0 < y"
      using x e by (simp_all add: y_def less_max_iff_disj)
    have "1 / y \<le> e"
      using y e by (simp add: field_simps)
    have "norm_pdf y * (1 / y - 1 / y ^ 3) \<le> norm_pdf y * (1 / y)"
      using norm_pdf_pos [of y] y by (intro mult_left_mono) simp_all
    also have "\<dots> \<le> 1 * (1 / y)"
      using norm_pdf_le_one [of y] y by (intro mult_right_mono) simp_all
    also have "\<dots> \<le> e"
      using \<open>1 / y \<le> e\<close> by simp
    finally have "norm_pdf y * (1 / y - 1 / y ^ 3) \<le> e" .
    moreover have "0 \<le> ndtr (- y)"
      using ndtr_pos [of "- y"] by simp
    ultimately have "- e \<le> k y"
      by (simp add: k_def)
    also have "k y \<le> k x"
      using y by (intro mono)
    finally show "0 \<le> k x + e" by simp
  qed
  then show ?thesis
    by (simp add: k_def)
qed

lemma ndtr_upper_near_zero:
  assumes "0 \<le> x"
  shows "ndtr x \<le> 1 / 2 + x * norm_pdf 0"
proof -
  define g where "g t = ndtr t - t * norm_pdf 0" for t
  have "g x \<le> g 0"
  proof (rule DERIV_nonpos_imp_nonincreasing [where f = g, OF assms])
    fix t :: real
    have "DERIV g t :> norm_pdf t - 1 * norm_pdf 0"
      unfolding g_def [abs_def]
      by (intro DERIV_diff DERIV_ndtr DERIV_cmult_right DERIV_ident)
    moreover have "norm_pdf t \<le> norm_pdf 0"
      by (rule norm_pdf_antimono_abs) simp
    ultimately show "\<exists>d. DERIV g t :> d \<and> d \<le> 0"
      by (intro exI [of _ "norm_pdf t - 1 * norm_pdf 0"]) simp
  qed
  then show ?thesis
    by (simp add: g_def ndtr_0)
qed

lemma ndtr_lower_near_zero:
  assumes "0 \<le> x"
  shows "1 / 2 + x * norm_pdf x \<le> ndtr x"
proof -
  define g where "g t = ndtr t - t * norm_pdf x" for t
  have "g 0 \<le> g x"
  proof (rule DERIV_nonneg_imp_nondecreasing [where f = g, OF assms])
    fix t :: real assume t: "0 \<le> t" "t \<le> x"
    have "DERIV g t :> norm_pdf t - 1 * norm_pdf x"
      unfolding g_def [abs_def]
      by (intro DERIV_diff DERIV_ndtr DERIV_cmult_right DERIV_ident)
    moreover have "norm_pdf x \<le> norm_pdf t"
      using t by (intro norm_pdf_antimono_abs) simp
    ultimately show "\<exists>d. DERIV g t :> d \<and> 0 \<le> d"
      by (intro exI [of _ "norm_pdf t - 1 * norm_pdf x"]) simp
  qed
  then show ?thesis
    by (simp add: g_def ndtr_0)
qed

lemma pi_ge_three: "3 \<le> pi"
proof -
  have "sin (pi / 6) \<le> pi / 6"
    by (rule sin_x_le_x) simp
  then show ?thesis
    by (simp add: sin_30)
qed

lemma pow_double_lower:
  fixes a r s :: real
  assumes "0 \<le> r" "r \<le> a ^ m" "s \<le> r * r"
  shows "s \<le> a ^ (2 * m)"
proof -
  have "r * r \<le> a ^ m * a ^ m"
    using assms(1,2) by (intro mult_mono) simp_all
  also have "\<dots> = a ^ (2 * m)"
    by (simp add: mult_2 power_add)
  finally show ?thesis
    using assms(3) by simp
qed

lemma pow512_lower:
  fixes a :: real
  assumes "4217 / 4096 \<le> a"
  shows "2975000 \<le> a ^ 512"
proof -
  have u1: "10599547 / 10000000 \<le> a ^ 2"
    using pow_double_lower [of "4217 / 4096" a 1 "10599547 / 10000000"] assms by simp
  have u2: "11235039 / 10000000 \<le> a ^ 4"
    using pow_double_lower [of "10599547 / 10000000" a 2 "11235039 / 10000000"] u1 by simp
  have u3: "1262261 / 1000000 \<le> a ^ 8"
    using pow_double_lower [of "11235039 / 10000000" a 4 "1262261 / 1000000"] u2 by simp
  have u4: "3983257 / 2500000 \<le> a ^ 16"
    using pow_double_lower [of "1262261 / 1000000" a 8 "3983257 / 2500000"] u3 by simp
  have u5: "12693069 / 5000000 \<le> a ^ 32"
    using pow_double_lower [of "3983257 / 2500000" a 16 "12693069 / 5000000"] u4 by simp
  have u6: "80557 / 12500 \<le> a ^ 64"
    using pow_double_lower [of "12693069 / 5000000" a 32 "80557 / 12500"] u5 by simp
  have u7: "83064707 / 2000000 \<le> a ^ 128"
    using pow_double_lower [of "80557 / 12500" a 64 "83064707 / 2000000"] u6 by simp
  have u8: "539042621 / 312500 \<le> a ^ 256"
    using pow_double_lower [of "83064707 / 2000000" a 128 "539042621 / 312500"] u7 by simp
  have u9: "5950811079773 / 2000000 \<le> a ^ 512"
    using pow_double_lower [of "539042621 / 312500" a 256 "5950811079773 / 2000000"] u8 by simp
  show ?thesis
    using u9 by simp
qed

lemma pow1024_lower:
  fixes a :: real
  assumes "16155 / 16384 \<le> a"
  shows "549 / 1000000000 \<le> a ^ 1024"
proof -
  have v1: "486120628193 / 500000000000 \<le> a ^ 2"
    using pow_double_lower [of "16155 / 16384" a 1 "486120628193 / 500000000000"] assms by simp
  have v2: "945253060619 / 1000000000000 \<le> a ^ 4"
    using pow_double_lower [of "486120628193 / 500000000000" a 2 "945253060619 / 1000000000000"] v1 by simp
  have v3: "893503348609 / 1000000000000 \<le> a ^ 8"
    using pow_double_lower [of "945253060619 / 1000000000000" a 4 "893503348609 / 1000000000000"] v2 by simp
  have v4: "31933929359 / 40000000000 \<le> a ^ 16"
    using pow_double_lower [of "893503348609 / 1000000000000" a 8 "31933929359 / 40000000000"] v3 by simp
  have v5: "637359902691 / 1000000000000 \<le> a ^ 32"
    using pow_double_lower [of "31933929359 / 40000000000" a 16 "637359902691 / 1000000000000"] v4 by simp
  have v6: "203113822779 / 500000000000 \<le> a ^ 64"
    using pow_double_lower [of "637359902691 / 1000000000000" a 32 "203113822779 / 500000000000"] v5 by simp
  have v7: "33004180003 / 200000000000 \<le> a ^ 128"
    using pow_double_lower [of "203113822779 / 500000000000" a 64 "33004180003 / 200000000000"] v6 by simp
  have v8: "27231897441 / 1000000000000 \<le> a ^ 256"
    using pow_double_lower [of "33004180003 / 200000000000" a 128 "27231897441 / 1000000000000"] v7 by simp
  have v9: "370788119 / 500000000000 \<le> a ^ 512"
    using pow_double_lower [of "27231897441 / 1000000000000" a 256 "370788119 / 500000000000"] v8 by simp
  have v10: "109987 / 200000000000 \<le> a ^ 1024"
    using pow_double_lower [of "370788119 / 500000000000" a 512 "109987 / 200000000000"] v9 by simp
  show ?thesis
    using v10 by simp
qed

lemma sqrt_two_pi_lower: "2449 / 1000 \<le> sqrt (2 * pi)"
proof (rule real_le_rsqrt)
  have "(2449 / 1000 :: real)\<^sup>2 \<le> 6"
    by (simp add: power2_eq_square)
  also have "6 \<le> 2 * pi"
    using pi_ge_three by simp
  finally show "(2449 / 1000)\<^sup>2 \<le> 2 * pi" .
qed

lemma sqrt_two_pi_upper: "sqrt (2 * pi) \<le> 2829 / 1000"
proof (rule real_le_lsqrt)
  have "2 * pi \<le> 8"
    using pi_less_4 by simp
  also have "8 \<le> (2829 / 1000 :: real)\<^sup>2"
    by (simp add: power2_eq_square)
  finally show "2 * pi \<le> (2829 / 1000)\<^sup>2" .
qed simp

lemma norm_pdf_upper: "norm_pdf x \<le> 1000 / 2449"
proof -
  have "exp (- (x\<^sup>2) / 2) / sqrt (2 * pi) \<le> 1 / (2449 / 1000)"
    using sqrt_two_pi_lower by (intro frac_le) simp_all
  then show ?thesis
    by (simp add: norm_pdf_def)
qed

lemma norm_pdf_lower:
  assumes "c \<le> exp (- (x\<^sup>2) / 2)" "0 \<le> c"
  shows "c / (2829 / 1000) \<le> norm_pdf x"
proof -
  have "0 < sqrt (2 * pi)" by simp
  then have "c / (2829 / 1000) \<le> exp (- (x\<^sup>2) / 2) / sqrt (2 * pi)"
    using assms sqrt_two_pi_upper by (intro frac_le) simp_all
  then show ?thesis
    by (simp add: norm_pdf_def)
qed

lemma exp_lower_121_8: "2975000 \<le> exp (121 / 8 :: real)"
proof -
  have "(1 + (121 / 8) / real 512) ^ 512 \<le> exp (121 / 8 :: real)"
    by (rule exp_ge_one_plus_x_over_n_power_n) simp_all
  moreover have "2975000 \<le> (1 + (121 / 8) / real 512) ^ 512"
    by (rule pow512_lower) simp
  ultimately show ?thesis by (rule order_trans [rotated])
qed

lemma exp_lower_minus_229_16: "549 / 1000000000 \<le> exp (- (229 / 16) :: real)"
proof -
  have "(1 - (229 / 16) / real 1024) ^ 1024 \<le> exp (- (229 / 16) :: real)"
    by (rule exp_ge_one_minus_x_over_n_power_n) simp_all
  moreover have "549 / 1000000000 \<le> (1 - (229 / 16) / real 1024) ^ 1024"
    by (rule pow1024_lower) simp
  ultimately show ?thesis by (rule order_trans [rotated])
qed

lemma ndtr_tail_upper_11_2: "ndtr (- (11 / 2)) \<le> 3 / 100000000"
proof -
  have "exp (- ((11 / 2 :: real)\<^sup>2) / 2) = 1 / exp (121 / 8)"
    by (simp add: power2_eq_square exp_minus inverse_eq_divide)
  also have "\<dots> \<le> 1 / 2975000"
    using exp_lower_121_8 by (intro divide_left_mono) simp_all
  finally have e: "exp (- ((11 / 2 :: real)\<^sup>2) / 2) \<le> 1 / 2975000" .
  have "norm_pdf (11 / 2) \<le> (1 / 2975000) / (2449 / 1000)"
    unfolding norm_pdf_def using e sqrt_two_pi_lower by (intro frac_le) simp_all
  then have "norm_pdf (11 / 2) / (11 / 2) \<le> ((1 / 2975000) / (2449 / 1000)) / (11 / 2)"
    by (intro divide_right_mono) simp_all
  also have "\<dots> \<le> 3 / 100000000"
    by simp
  finally have "norm_pdf (11 / 2) / (11 / 2) \<le> 3 / 100000000" .
  moreover have "ndtr (- (11 / 2)) \<le> norm_pdf (11 / 2) / (11 / 2)"
    by (rule mills_upper) simp
  ultimately show ?thesis by (rule order_trans [rotated])
qed

lemma ndtr_tail_lower_107_20: "3 / 100000000 \<le> ndtr (- (107 / 20))"
proof -
  have "exp (- (229 / 16) :: real) \<le> exp (- ((107 / 20)\<^sup>2) / 2)"
    by (simp add: power2_eq_square)
  with exp_lower_minus_229_16 have "549 / 1000000000 \<le> exp (- ((107 / 20 :: real)\<^sup>2) / 2)"
    by (rule order_trans)
  then have "(549 / 1000000000) / (2829 / 1000) \<le> norm_pdf (107 / 20)"
    by (rule norm_pdf_lower) simp
  then have "((549 / 1000000000) / (2829 / 1000)) * (1 / (107 / 20) - 1 / (107 / 20) ^ 3)
      \<le> norm_pdf (107 / 20) * (1 / (107 / 20) - 1 / (107 / 20) ^ 3)"
    by (intro mult_right_mono) (simp_all add: power3_eq_cube)
  moreover have "(3 / 100000000 :: real)
      \<le> ((549 / 1000000000) / (2829 / 1000)) * (1 / (107 / 20) - 1 / (107 / 20) ^ 3)"
    by (simp add: power3_eq_cube)
  moreover have "norm_pdf (107 / 20) * (1 / (107 / 20) - 1 / (107 / 20) ^ 3) \<le> ndtr (- (107 / 20))"
    by (rule mills_lower) simp
  ultimately show ?thesis by linarith
qed

lemma z_cut_scenario_bounds:
  "107 / 20 \<le> - ndtri (3 / 100000000)" "- ndtri (3 / 100000000) \<le> 11 / 2"
proof -
  have q: "ndtr (ndtri (3 / 100000000)) = 3 / 100000000"
    by (rule ndtr_ndtri) simp_all
  have "ndtr (ndtri (3 / 100000000)) \<le> ndtr (- (107 / 20))"
    using ndtr_tail_lower_107_20 by (simp only: q)
  then have "ndtri (3 / 100000000) \<le> - (107 / 20)"
    by (simp only: ndtr_le_iff)
  then show "107 / 20 \<le> - ndtri (3 / 100000000)" by simp
  have "ndtr (- (11 / 2)) \<le> ndtr (ndtri (3 / 100000000))"
    using ndtr_tail_upper_11_2 by (simp only: q)
  then have "- (11 / 2) \<le> ndtri (3 / 100000000)"
    by (simp only: ndtr_le_iff)
  then show "- ndtri (3 / 100000000) \<le> 11 / 2" by simp
qed

lemma sqrt_576: "sqrt 576 = 24"
  using real_sqrt_abs [of 24] by simp

lemma scenario_024:
  "analytic_power 1800 (1 / 5) (6 / 25) (6 / 100000000) 1
     = Fin (pw (- ndtri (3 / 100000000)) (144 / 25))"
proof -
  have "analytic_power 1800 (1 / 5) (6 / 25) (6 / 100000000) 1
      = Fin (pw (- ndtri ((6 / 100000000) / 2)) (ncp_val 1800 (1 / 5) (6 / 25) 1))"
    by (rule analytic_power_valid) simp_all
  moreover have "ncp_val 1800 (1 / 5) (6 / 25) 1 = 144 / 25"
    by (simp add: ncp_val_def sqrt_576)
  ultimately show ?thesis by simp
qed

lemma scenario_015:
  "analytic_power 1800 (1 / 5) (3 / 20) (6 / 100000000) 1
     = Fin (pw (- ndtri (3 / 100000000)) (18 / 5))"
proof -
  have "analytic_power 1800 (1 / 5) (3 / 20) (6 / 100000000) 1
      = Fin (pw (- ndtri ((6 / 100000000) / 2)) (ncp_val 1800 (1 / 5) (3 / 20) 1))"
    by (rule analytic_power_valid) simp_all
  moreover have "ncp_val 1800 (1 / 5) (3 / 20) 1 = 18 / 5"
    by (simp add: ncp_val_def sqrt_576)
  ultimately show ?thesis by simp
qed

lemma pw_scenario_024_lower: "29 / 50 \<le> pw (- ndtri (3 / 100000000)) (144 / 25)"
proof -
  define z where "z = - ndtri (3 / 100000000)"
  have z: "z \<le> 11 / 2"
    unfolding z_def by (rule z_cut_scenario_bounds)
  have "1 + - ((13 / 50 :: real)\<^sup>2 / 2) \<le> exp (- ((13 / 50)\<^sup>2 / 2))"
    by (rule exp_ge_add_one_self)
  then have "4831 / 5000 \<le> exp (- ((13 / 50 :: real)\<^sup>2) / 2)"
    by (simp add: power2_eq_square)
  then have "(4831 / 5000) / (2829 / 1000) \<le> norm_pdf (13 / 50)"
    by (rule norm_pdf_lower) simp
  then have "1 / 2 + (13 / 50) * ((4831 / 5000) / (2829 / 1000)) \<le> 1 / 2 + (13 / 50) * norm_pdf (13 / 50)"
    by (intro add_left_mono mult_left_mono) simp_all
  also have "\<dots> \<le> ndtr (13 / 50)"
    by (rule ndtr_lower_near_zero) simp
  also have "\<dots> \<le> ndtr (144 / 25 - z)"
    using z by (simp add: ndtr_le_iff)
  also have "\<dots> \<le> pw z (144 / 25)"
    using ndtr_pos [of "- z - 144 / 25"] by (simp add: pw_def)
  finally have "1 / 2 + (13 / 50) * ((4831 / 5000) / (2829 / 1000)) \<le> pw z (144 / 25)" .
  moreover have "(29 / 50 :: real) \<le> 1 / 2 + (13 / 50) * ((4831 / 5000) / (2829 / 1000))"
    by simp
  ultimately show ?thesis
    unfolding z_def by (rule order_trans [rotated])
qed

lemma pw_scenario_024_upper: "pw (- ndtri (3 / 100000000)) (144 / 25) \<le> 17 / 25"
proof -
  define z where "z = - ndtri (3 / 100000000)"
  have z: "107 / 20 \<le> z"
    unfolding z_def by (rule z_cut_scenario_bounds)
  have "ndtr (144 / 25 - z) \<le> ndtr (41 / 100)"
    using z by (simp add: ndtr_le_iff)
  also have "\<dots> \<le> 1 / 2 + (41 / 100) * norm_pdf 0"
    by (rule ndtr_upper_near_zero) simp
  also have "\<dots> \<le> 1 / 2 + (41 / 100) * (1000 / 2449)"
    using norm_pdf_upper [of 0] by (intro add_left_mono mult_left_mono) simp_all
  finally have a: "ndtr (144 / 25 - z) \<le> 1 / 2 + (41 / 100) * (1000 / 2449)" .
  have "ndtr (- z - 144 / 25) \<le> ndtr (- (11 / 2))"
    using z by (simp add: ndtr_le_iff)
  also have "\<dots> \<le> 3 / 100000000"
    by (rule ndtr_tail_upper_11_2)
  finally have b: "ndtr (- z - 144 / 25) \<le> 3 / 100000000" .
  have "pw z (144 / 25) \<le> (1 / 2 + (41 / 100) * (1000 / 2449)) + 3 / 100000000"
    unfolding pw_def using a b by (rule add_mono)
  also have "\<dots> \<le> 17 / 25"
    by simp
  finally show ?thesis
    unfolding z_def .
qed

lemma pw_scenario_015_upper: "pw (- ndtri (3 / 100000000)) (18 / 5) < 1 / 2"
proof -
  define z where "z = - ndtri (3 / 100000000)"
  have z: "107 / 20 \<le> z"
    unfolding z_def by (rule z_cut_scenario_bounds)
  have "ndtr (18 / 5 - z) \<le> ndtr (- (7 / 4))"
    using z by (simp add: ndtr_le_iff)
  also have "\<dots> \<le> norm_pdf (7 / 4) / (7 / 4)"
    by (rule mills_upper) simp
  also have "\<dots> \<le> (1000 / 2449) / (7 / 4)"
    using norm_pdf_upper [of "7 / 4"] by (intro divide_right_mono) simp_all
  finally have a: "ndtr (18 / 5 - z) \<le> (1000 / 2449) / (7 / 4)" .
  have "ndtr (- z - 18 / 5) \<le> ndtr (- (11 / 2))"
    using z by (simp add: ndtr_le_iff)
  also have "\<dots> \<le> 3 / 100000000"
    by (rule ndtr_tail_upper_11_2)
  finally have b: "ndtr (- z - 18 / 5) \<le> 3 / 100000000" .
  have "pw z (18 / 5) \<le> (1000 / 2449) / (7 / 4) + 3 / 100000000"
    unfolding pw_def using a b by (rule add_mono)
  also have "\<dots> < 1 / 2"
    by simp
  finally show ?thesis
    unfolding z_def .
qed

section \<open>The claims\<close>

text \<open>
  Valid inputs are those of the specification: \<open>0 \<le> n\<close>, \<open>0 < maf \<le> 1 / 2\<close>,
  \<open>0 < p_thr < 1\<close>, \<open>0 < sigma\<close> and any real \<open>beta\<close>.
\<close>














text \<open>
  C7 says that at \<open>n = 1800\<close>, \<open>maf = 0.20\<close>, \<open>beta = 0.24\<close>, \<open>p_thr = 6e-8\<close>,
  \<open>sigma = 1\<close> the power is within 0.05 of 0.50. There \<open>ncp = 0.24 * sqrt 576 = 5.76\<close>
  and \<open>z_cut\<close> lies between 5.35 and 5.5, so the power is at least
  \<open>CDF 0.26 > 0.58\<close>: it is not within 0.05 of 0.50.
\<close>

theorem analytic_power_scenario_counterexample:
  "\<not> (\<exists>r. analytic_power 1800 (1 / 5) (6 / 25) (6 / 100000000) 1 = Fin r \<and> \<bar>r - 1 / 2\<bar> \<le> 1 / 20)"
proof
  assume "\<exists>r. analytic_power 1800 (1 / 5) (6 / 25) (6 / 100000000) 1 = Fin r \<and> \<bar>r - 1 / 2\<bar> \<le> 1 / 20"
  then obtain r where r: "analytic_power 1800 (1 / 5) (6 / 25) (6 / 100000000) 1 = Fin r"
    and c: "\<bar>r - 1 / 2\<bar> \<le> 1 / 20"
    by blast
  from r have "r = pw (- ndtri (3 / 100000000)) (144 / 25)"
    unfolding scenario_024 by simp
  with pw_scenario_024_lower c show False
    by linarith
qed

text \<open>
  C7, as the code has it: at \<open>n = 1800\<close>, \<open>maf = 0.20\<close>, \<open>beta = 0.24\<close>,
  \<open>p_thr = 6e-8\<close>, \<open>sigma = 1\<close> the power is within 0.05 of 0.63, and with
  \<open>beta = 0.15\<close> it is strictly between 0 and 0.5.
\<close>

theorem analytic_power_scenarios:
  "(\<exists>r. analytic_power 1800 (1 / 5) (6 / 25) (6 / 100000000) 1 = Fin r \<and> \<bar>r - 63 / 100\<bar> \<le> 1 / 20)
   \<and> (\<exists>r. analytic_power 1800 (1 / 5) (3 / 20) (6 / 100000000) 1 = Fin r \<and> 0 < r \<and> r < 1 / 2)"
proof (intro conjI exI)
  show "analytic_power 1800 (1 / 5) (6 / 25) (6 / 100000000) 1 = Fin (pw (- ndtri (3 / 100000000)) (144 / 25))"
    by (rule scenario_024)
  show "\<bar>pw (- ndtri (3 / 100000000)) (144 / 25) - 63 / 100\<bar> \<le> 1 / 20"
    using pw_scenario_024_lower pw_scenario_024_upper by linarith
  show "analytic_power 1800 (1 / 5) (3 / 20) (6 / 100000000) 1 = Fin (pw (- ndtri (3 / 100000000)) (18 / 5))"
    by (rule scenario_015)
  show "0 < pw (- ndtri (3 / 100000000)) (18 / 5)"
    by (rule pw_pos)
  show "pw (- ndtri (3 / 100000000)) (18 / 5) < 1 / 2"
    by (rule pw_scenario_015_upper)
qed







end
